theory Spec2Isabelle
  imports Main "HOL-Library.Word" "HOL-Library.Sublist"
begin

section \<open>Data: bytes, text and Python slicing\<close>

text \<open>
  A Python \<open>bytes\<close> object is a list of 8-bit words; a Python \<open>str\<close> is a list of
  Unicode code points (natural numbers), since the scripts are Japanese text and the
  program compares code points.
\<close>

type_synonym byte = "8 word"
type_synonym bytes = "byte list"
type_synonym ustr = "nat list"

text \<open>\<open>xs[a:b]\<close> for non-negative \<open>a\<close> and \<open>b\<close>: clipped at the end, empty when \<open>b \<le> a\<close>.\<close>

definition slice :: "'a list \<Rightarrow> nat \<Rightarrow> nat \<Rightarrow> 'a list" where
  "slice xs a b = take (b - a) (drop a xs)"

text \<open>The code points of an ASCII literal of the source.\<close>

definition ascii :: "string \<Rightarrow> ustr" where
  "ascii s = map of_char s"

text \<open>The unsigned little-endian value of a byte string (\<open>struct.unpack('<H')\<close>, \<open>'<I'\<close>).\<close>

fun le_nat :: "bytes \<Rightarrow> nat" where
  "le_nat [] = 0"
| "le_nat (b # bs) = unat b + 256 * le_nat bs"

datatype error =
  StructError
| ValueError string

section \<open>MemFSParser: the container index scanner\<close>

text \<open>
  \<open>bytes.decode('utf-16le')\<close> in strict mode: \<open>None\<close> stands for UnicodeDecodeError
  (an odd trailing byte, a lone low surrogate, a high surrogate not followed by a low one).
\<close>

fun utf16le_decode :: "bytes \<Rightarrow> ustr option" where
  "utf16le_decode [] = Some []"
| "utf16le_decode [b] = None"
| "utf16le_decode (lo # hi # rest) =
     (let ch = unat lo + 256 * unat hi in
      if ch < 0xD800 \<or> 0xDFFF < ch then map_option ((#) ch) (utf16le_decode rest)
      else if ch \<le> 0xDBFF then
        (case rest of
           lo2 # hi2 # rest2 \<Rightarrow>
             (let ch2 = unat lo2 + 256 * unat hi2 in
              if 0xDC00 \<le> ch2 \<and> ch2 \<le> 0xDFFF
              then map_option ((#) (0x10000 + (ch - 0xD800) * 1024 + (ch2 - 0xDC00)))
                     (utf16le_decode rest2)
              else None)
         | _ \<Rightarrow> None)
      else None)"

text \<open>
  The inner loop of the first pass:
  \<^verbatim>\<open>while end + 1 < len(self.data) and self.data[end:end+2] != b'\x00\x00': end += 2\<close>
\<close>

function path_end :: "bytes \<Rightarrow> nat \<Rightarrow> nat" where
  "path_end data e =
     (if e + 1 < length data \<and> slice data e (e + 2) \<noteq> [0, 0]
      then path_end data (e + 2) else e)"
  by pat_completeness auto
termination
  by (relation "measure (\<lambda>(data, e). length data - e)") auto

declare path_end.simps [simp del]

lemma path_end_ge: "e \<le> path_end data e"
proof (induction data e rule: path_end.induct)
  case (1 data e)
  show ?case
  proof (cases "e + 1 < length data \<and> slice data e (e + 2) \<noteq> [0, 0]")
    case True
    with 1 have "e + 2 \<le> path_end data (e + 2)" by simp
    moreover from True have "path_end data e = path_end data (e + 2)"
      by (subst path_end.simps) simp
    ultimately show ?thesis by simp
  next
    case False
    then have "path_end data e = e" by (subst path_end.simps) auto
    then show ?thesis by simp
  qed
qed

lemma path_end_slash:
  assumes "slice data p (p + 2) = [0x2f, 0]"
  shows "p < path_end data p"
proof -
  have len: "length (slice data p (p + 2)) = 2" using assms by simp
  then have "p + 1 < length data" by (simp add: slice_def)
  moreover have "slice data p (p + 2) \<noteq> [0, 0]" using assms by simp
  ultimately have "path_end data p = path_end data (p + 2)"
    by (subst path_end.simps) simp
  moreover have "p + 2 \<le> path_end data (p + 2)" by (rule path_end_ge)
  ultimately show ?thesis by simp
qed

text \<open>The recognised content-file suffixes: \<open>'.tat' in path or '.json' in path or '.armd' in path\<close>.\<close>

definition is_content_path :: "ustr \<Rightarrow> bool" where
  "is_content_path path =
     (sublist (ascii ''.tat'') path \<or> sublist (ascii ''.json'') path \<or> sublist (ascii ''.armd'') path)"

text \<open>
  The first pass of \<open>_parse\<close>: the list \<open>paths\<close> of (offset, path), in scan order.
  A decoding error is swallowed by the bare \<open>except\<close>.
\<close>

function scan_paths :: "bytes \<Rightarrow> nat \<Rightarrow> (nat \<times> ustr) list" where
  "scan_paths data search_pos =
     (if search_pos < length data then
        (if slice data search_pos (search_pos + 2) = [0x2f, 0] then
           (case utf16le_decode (slice data search_pos (path_end data search_pos)) of
              Some path \<Rightarrow> if is_content_path path then [(search_pos, path)] else []
            | None \<Rightarrow> [])
           @ scan_paths data (path_end data search_pos)
         else scan_paths data (search_pos + 1))
      else [])"
  by pat_completeness auto
termination
proof (relation "measure (\<lambda>(data, p). length data - p)")
  show "wf (measure (\<lambda>(data, p). length data - p))" by simp
next
  fix data :: bytes and search_pos :: nat
  assume "search_pos < length data" and "slice data search_pos (search_pos + 2) = [0x2f, 0]"
  then show "((data, path_end data search_pos), (data, search_pos))
               \<in> measure (\<lambda>(data, p). length data - p)"
    using path_end_slash [of data search_pos] by simp
next
  fix data :: bytes and search_pos :: nat
  assume "search_pos < length data"
  then show "((data, search_pos + 1), (data, search_pos))
               \<in> measure (\<lambda>(data, p). length data - p)"
    by simp
qed

declare scan_paths.simps [simp del]

record index_entry =
  path :: ustr
  metadata_offset :: int
  val1 :: nat
  val2 :: nat
  path_prefix :: nat

text \<open>\<open>struct.unpack\<close> raises \<open>struct.error\<close> unless the buffer has exactly the size of the format.\<close>

definition unpack_H :: "bytes \<Rightarrow> error + nat" where
  "unpack_H bs = (if length bs = 2 then Inr (le_nat bs) else Inl StructError)"

definition unpack_I :: "bytes \<Rightarrow> error + nat" where
  "unpack_I bs = (if length bs = 4 then Inr (le_nat bs) else Inl StructError)"

text \<open>
  The second pass of \<open>_parse\<close>: \<open>check_pos\<close> is a Python integer and may be negative,
  in which case the candidate is skipped (\<open>continue\<close>).
\<close>

fun build_entries :: "bytes \<Rightarrow> (nat \<times> ustr) list \<Rightarrow> error + index_entry list" where
  "build_entries data [] = Inr []"
| "build_entries data ((path_offset, p) # ps) =
     (let check_pos = int path_offset - 16 in
      if check_pos < 0 then build_entries data ps
      else
        (case unpack_H (slice data (nat (check_pos + 8)) (nat (check_pos + 10))) of
           Inl e \<Rightarrow> Inl e
         | Inr pp \<Rightarrow>
        (case unpack_I (slice data (nat check_pos) (nat (check_pos + 4))) of
           Inl e \<Rightarrow> Inl e
         | Inr d1 \<Rightarrow>
        (case unpack_I (slice data (nat (check_pos + 4)) (nat (check_pos + 8))) of
           Inl e \<Rightarrow> Inl e
         | Inr d2 \<Rightarrow>
        (case build_entries data ps of
           Inl e \<Rightarrow> Inl e
         | Inr es \<Rightarrow>
             Inr (\<lparr>path = p, metadata_offset = check_pos, val1 = d1, val2 = d2,
                   path_prefix = pp\<rparr> # es))))))"

definition MemFSParser_parse :: "bytes \<Rightarrow> error + index_entry list" where
  "MemFSParser_parse data = build_entries data (scan_paths data 0)"

section \<open>Python string operations used by the script parser\<close>

text \<open>\<open>str.isspace\<close> for one code point (the characters \<open>str.strip()\<close> removes).\<close>

definition py_isspace :: "nat \<Rightarrow> bool" where
  "py_isspace c =
     ((0x09 \<le> c \<and> c \<le> 0x0D) \<or> (0x1C \<le> c \<and> c \<le> 0x20) \<or> c = 0x85 \<or> c = 0xA0
      \<or> c = 0x1680 \<or> (0x2000 \<le> c \<and> c \<le> 0x200A) \<or> c = 0x2028 \<or> c = 0x2029
      \<or> c = 0x202F \<or> c = 0x205F \<or> c = 0x3000)"

definition lstrip_chars :: "nat list \<Rightarrow> ustr \<Rightarrow> ustr" where
  "lstrip_chars cs s = dropWhile (\<lambda>c. c \<in> set cs) s"

definition rstrip_chars :: "nat list \<Rightarrow> ustr \<Rightarrow> ustr" where
  "rstrip_chars cs s = rev (dropWhile (\<lambda>c. c \<in> set cs) (rev s))"

definition strip_chars :: "nat list \<Rightarrow> ustr \<Rightarrow> ustr" where
  "strip_chars cs s = rstrip_chars cs (lstrip_chars cs s)"

definition rstrip :: "ustr \<Rightarrow> ustr" where
  "rstrip s = rev (dropWhile py_isspace (rev s))"

definition strip :: "ustr \<Rightarrow> ustr" where
  "strip s = rstrip (dropWhile py_isspace s)"

text \<open>\<open>s.split(sep)\<close> for a one-character separator: never empty, \<open>''.split(sep) = ['']\<close>.\<close>

fun split_on :: "nat \<Rightarrow> ustr \<Rightarrow> ustr list" where
  "split_on sep [] = [[]]"
| "split_on sep (x # xs) =
     (if x = sep then [] # split_on sep xs
      else (case split_on sep xs of l # ls \<Rightarrow> (x # l) # ls | [] \<Rightarrow> [[x]]))"

text \<open>\<open>sep.join(parts)\<close>.\<close>

fun join :: "ustr \<Rightarrow> ustr list \<Rightarrow> ustr" where
  "join sep [] = []"
| "join sep [p] = p"
| "join sep (p # q # ps) = p @ sep @ join sep (q # ps)"

text \<open>\<open>s.find(c)\<close> for one character: the first index, or \<open>-1\<close>.\<close>

fun find_char :: "nat \<Rightarrow> ustr \<Rightarrow> int" where
  "find_char c [] = -1"
| "find_char c (x # xs) =
     (if x = c then 0 else (let r = find_char c xs in if r < 0 then -1 else r + 1))"

text \<open>
  \<open>s.replace(tag, '')\<close> for a non-empty \<open>tag\<close>: the occurrences are removed from left to
  right, without overlap. (The source only passes non-empty tags.)
\<close>

function str_remove :: "ustr \<Rightarrow> ustr \<Rightarrow> ustr" where
  "str_remove tag [] = []"
| "str_remove tag (x # xs) =
     (if tag \<noteq> [] \<and> prefix tag (x # xs)
      then str_remove tag (drop (length tag) (x # xs))
      else x # str_remove tag xs)"
  by pat_completeness auto
termination
  by (relation "measure (\<lambda>(tag, s). length s)") (auto simp: Suc_le_eq)

section \<open>TATParser: the dialogue extractor\<close>

text \<open>The glyphs of the script format, as code points.\<close>

definition SPEAKER_OPEN :: nat where "SPEAKER_OPEN = 0xFF5B"
definition SPEAKER_CLOSE :: nat where "SPEAKER_CLOSE = 0xFF5D"
definition QUOTE_OPEN :: nat where "QUOTE_OPEN = 0x300C"
definition QUOTE_CLOSE :: nat where "QUOTE_CLOSE = 0x300D"

text \<open>\<open>_has_japanese\<close>: \<open>any(0x3040 <= ord(c) <= 0x9FFF for c in text)\<close>.\<close>

definition has_japanese :: "ustr \<Rightarrow> bool" where
  "has_japanese s = list_ex (\<lambda>c. 0x3040 \<le> c \<and> c \<le> 0x9FFF) s"

text \<open>
  \<open>_get_scene_header\<close>: the first of the first 20 lines that starts with \<open>[\<close> and
  contains \<open>]\<close>, stripped; the empty string when there is none.
\<close>

fun first_header :: "ustr list \<Rightarrow> ustr" where
  "first_header [] = []"
| "first_header (l # ls) =
     (if prefix (ascii ''['') l \<and> sublist (ascii '']'') l then strip l else first_header ls)"

definition get_scene_header :: "ustr \<Rightarrow> ustr" where
  "get_scene_header text_content = first_header (take 20 (split_on 10 text_content))"

text \<open>
  A result dictionary. The key \<open>'type'\<close> is present only in the dictionaries the
  narrative branch builds, so it is an optional field.
\<close>

record dialogue_record =
  r_file :: ustr
  r_line :: nat
  r_speaker :: ustr
  r_text :: ustr
  r_full_line :: ustr
  r_context :: ustr
  r_scene :: ustr
  r_type :: "ustr option"

text \<open>\<open>range(start, stop, -1)\<close>: \<open>start, start - 1, ..\<close>, down to \<open>stop + 1\<close>.\<close>

definition range_down :: "int \<Rightarrow> int \<Rightarrow> int list" where
  "range_down start stop = map (\<lambda>k. start - int k) [0..<nat (start - stop)]"

text \<open>
  The context loop, over the indices of \<open>range(line_num - 1, max(0, line_num - 3), -1)\<close>:
  \<^verbatim>\<open>
  for i in range(...):
      ctx_line = lines[i].strip()
      if ctx_line and not ctx_line.startswith('//'):
          context_lines.insert(0, ctx_line); count += 1
      if count >= 2: break
  \<close>
  Every index of the range is at least 1 and below \<open>line_num\<close>, so \<open>lines[i]\<close> is in range.
\<close>

fun context_loop :: "ustr list \<Rightarrow> int list \<Rightarrow> nat \<Rightarrow> ustr list \<Rightarrow> ustr list" where
  "context_loop lines [] count context_lines = context_lines"
| "context_loop lines (i # is) count context_lines =
     (let ctx_line = strip (lines ! nat i);
          keep = (ctx_line \<noteq> [] \<and> \<not> prefix (ascii ''//'') ctx_line);
          context_lines' = (if keep then ctx_line # context_lines else context_lines);
          count' = (if keep then count + 1 else count)
      in if count' \<ge> 2 then context_lines' else context_loop lines is count' context_lines')"

definition build_context :: "ustr list \<Rightarrow> nat \<Rightarrow> ustr" where
  "build_context lines line_num =
     join [10] (context_loop lines
                  (range_down (int line_num - 1) (max 0 (int line_num - 3))) 0 [])"

text \<open>The tags removed from a narrative line, in the order of the source.\<close>

definition narrative_tags :: "ustr list" where
  "narrative_tags = [ascii ''<KW>'', ascii ''<WinClear>'', ascii ''<WinClear ON>'',
                     ascii ''<WinClear OFF>'', ascii ''</n>'', ascii ''<TW'']"

definition clean_narrative :: "ustr \<Rightarrow> ustr" where
  "clean_narrative line = strip (fold str_remove narrative_tags line)"

text \<open>
  The body of the loop of \<open>extract_dialogue\<close> for one line: from the speaker before the
  line to the speaker after it and the dictionaries the line appends to \<open>results\<close>
  (none or one). \<open>current_speaker\<close> is \<open>None\<close> or a string, as in the source.
  The list \<open>current_context\<close> of the source is written and never read; it is left out.
\<close>

definition process_line ::
  "ustr \<Rightarrow> ustr \<Rightarrow> ustr list \<Rightarrow> nat \<Rightarrow> ustr \<Rightarrow> ustr option
     \<Rightarrow> ustr option \<times> dialogue_record list" where
  "process_line filename text_content lines line_num original_line current_speaker =
     (let line = rstrip original_line in
      if prefix [SPEAKER_OPEN] line \<and> SPEAKER_CLOSE \<in> set line then
        (Some (strip_chars [SPEAKER_OPEN, SPEAKER_CLOSE] line), [])
      else if QUOTE_OPEN \<in> set line \<and> QUOTE_CLOSE \<in> set line then
        (let start = find_char QUOTE_OPEN line + 1;
             end = find_char QUOTE_CLOSE line;
             dialogue = strip (slice line (nat start) (nat end))
         in (None,
             if start > 0 \<and> end > start \<and> has_japanese dialogue \<and> length dialogue \<ge> 2
             then [\<lparr>r_file = filename, r_line = line_num + 1,
                     r_speaker = (case current_speaker of None \<Rightarrow> [] | Some sp \<Rightarrow> sp),
                     r_text = dialogue, r_full_line = line,
                     r_context = build_context lines line_num,
                     r_scene = get_scene_header text_content, r_type = None\<rparr>]
             else []))
      else if \<not> prefix (ascii ''//'') line \<and> \<not> prefix (ascii ''<'') line
              \<and> \<not> prefix [SPEAKER_OPEN] line \<and> has_japanese line then
        (let cleaned_text = clean_narrative line
         in (current_speaker,
             if length cleaned_text \<ge> 4 \<and> length cleaned_text < 200
                \<and> has_japanese cleaned_text \<and> \<not> prefix (ascii ''['') cleaned_text
             then [\<lparr>r_file = filename, r_line = line_num + 1, r_speaker = [],
                     r_text = cleaned_text, r_full_line = line,
                     r_context = build_context lines line_num,
                     r_scene = get_scene_header text_content,
                     r_type = Some (ascii ''narrative'')\<rparr>]
             else []))
      else (current_speaker, []))"

text \<open>
  The loop \<open>for line_num, line in enumerate(lines)\<close>, threading \<open>current_speaker\<close> and
  \<open>results\<close>; \<open>rest\<close> is the part of \<open>lines\<close> still to visit, from index \<open>line_num\<close>.
\<close>

fun extract_loop ::
  "ustr \<Rightarrow> ustr \<Rightarrow> ustr list \<Rightarrow> nat \<Rightarrow> ustr list \<Rightarrow> ustr option \<Rightarrow> dialogue_record list
     \<Rightarrow> dialogue_record list" where
  "extract_loop filename text_content lines line_num [] current_speaker results = results"
| "extract_loop filename text_content lines line_num (l # rest) current_speaker results =
     (case process_line filename text_content lines line_num l current_speaker of
        (sp, out) \<Rightarrow>
          extract_loop filename text_content lines (line_num + 1) rest sp (results @ out))"

definition extract_dialogue :: "ustr \<Rightarrow> ustr \<Rightarrow> dialogue_record list" where
  "extract_dialogue filename text_content =
     (let lines = split_on 10 text_content
      in extract_loop filename text_content lines 0 lines None [])"

section \<open>MemBodyExtractor: the logical segment splitter\<close>

text \<open>
  \<open>bytes.decode('utf-8', errors='ignore')\<close>, after CPython's decoder. One step looks at
  the start byte \<open>ch\<close> and the bytes \<open>s\<close> after it, and returns the code point it decodes
  (none on an error) and the number of bytes it consumes, the start byte included: an
  ASCII byte is itself; an invalid start byte (80..C1, F5..FF) is skipped; a start byte
  whose continuation is wrong is skipped together with the continuation bytes already
  accepted (the offending byte is decoded again); a sequence cut off by the end of the
  input is skipped whole. Overlong forms, surrogates and values above U+10FFFF are
  rejected at the second byte.
\<close>

definition is_cont :: "byte \<Rightarrow> bool" where
  "is_cont b = (0x80 \<le> b \<and> b < 0xC0)"

definition utf8_seq2 :: "byte \<Rightarrow> bytes \<Rightarrow> nat option \<times> nat" where
  "utf8_seq2 ch s =
     (case s of
        [] \<Rightarrow> (None, 1)
      | ch2 # s2 \<Rightarrow>
          if \<not> is_cont ch2 then (None, 1)
          else (Some ((unat ch - 0xC0) * 64 + (unat ch2 - 0x80)), 2))"

definition utf8_seq3 :: "byte \<Rightarrow> bytes \<Rightarrow> nat option \<times> nat" where
  "utf8_seq3 ch s =
     (case s of
        [] \<Rightarrow> (None, 1)
      | ch2 # s2 \<Rightarrow>
          if \<not> is_cont ch2 \<or> (if ch2 < 0xA0 then ch = 0xE0 else ch = 0xED) then (None, 1)
          else
            (case s2 of
               [] \<Rightarrow> (None, 2)
             | ch3 # s3 \<Rightarrow>
                 if \<not> is_cont ch3 then (None, 2)
                 else (Some ((unat ch - 0xE0) * 4096 + (unat ch2 - 0x80) * 64
                             + (unat ch3 - 0x80)), 3)))"

definition utf8_seq4 :: "byte \<Rightarrow> bytes \<Rightarrow> nat option \<times> nat" where
  "utf8_seq4 ch s =
     (case s of
        [] \<Rightarrow> (None, 1)
      | ch2 # s2 \<Rightarrow>
          if \<not> is_cont ch2 \<or> (if ch2 < 0x90 then ch = 0xF0 else ch = 0xF4) then (None, 1)
          else
            (case s2 of
               [] \<Rightarrow> (None, 2)
             | ch3 # s3 \<Rightarrow>
                 if \<not> is_cont ch3 then (None, 2)
                 else
                   (case s3 of
                      [] \<Rightarrow> (None, 3)
                    | ch4 # s4 \<Rightarrow>
                        if \<not> is_cont ch4 then (None, 3)
                        else (Some ((unat ch - 0xF0) * 262144 + (unat ch2 - 0x80) * 4096
                                    + (unat ch3 - 0x80) * 64 + (unat ch4 - 0x80)), 4))))"

definition utf8_step :: "byte \<Rightarrow> bytes \<Rightarrow> nat option \<times> nat" where
  "utf8_step ch s =
     (if ch < 0x80 then (Some (unat ch), 1)
      else if ch < 0xC2 then (None, 1)
      else if ch < 0xE0 then utf8_seq2 ch s
      else if ch < 0xF0 then utf8_seq3 ch s
      else if ch < 0xF5 then utf8_seq4 ch s
      else (None, 1))"

text \<open>
  The decoding loop: the step at the current byte, then the rest after the \<open>n\<close> bytes
  consumed (\<open>n - 1\<close> of them after the start byte).
\<close>

fun utf8_decode_ignore :: "bytes \<Rightarrow> ustr" where
  "utf8_decode_ignore [] = []"
| "utf8_decode_ignore (ch # s) =
     (case fst (utf8_step ch s) of
        Some c \<Rightarrow> c # utf8_decode_ignore (drop (snd (utf8_step ch s) - 1) s)
      | None \<Rightarrow> utf8_decode_ignore (drop (snd (utf8_step ch s) - 1) s))"

text \<open>
  The test both scans of \<open>find_file_data\<close> make on a decoded header:
  \<open>'_TOP]' in header or '_START]' in header or '_END]' in header\<close>.
\<close>

definition is_scene_header :: "ustr \<Rightarrow> bool" where
  "is_scene_header header =
     (sublist (ascii ''_TOP]'') header \<or> sublist (ascii ''_START]'') header
      \<or> sublist (ascii ''_END]'') header)"

text \<open>
  \<^verbatim>\<open>while end < len(decompressed) and decompressed[end:end+1] != b']': end += 1\<close>
\<close>

function header_end :: "bytes \<Rightarrow> nat \<Rightarrow> nat" where
  "header_end d e =
     (if e < length d \<and> slice d e (e + 1) \<noteq> [0x5D] then header_end d (e + 1) else e)"
  by pat_completeness auto
termination
  by (relation "measure (\<lambda>(d, e). length d - e)") auto

declare header_end.simps [simp del]

text \<open>The inner loop over \<open>next_pos\<close>: it stops at the next scene header or at the end.\<close>

function next_boundary :: "bytes \<Rightarrow> nat \<Rightarrow> nat" where
  "next_boundary d next_pos =
     (if next_pos < length d then
        (if slice d next_pos (next_pos + 1) = [0x5B] then
           (let check_end = header_end d (next_pos + 1) in
            if check_end < length d
               \<and> is_scene_header (utf8_decode_ignore (slice d next_pos (check_end + 1)))
            then next_pos
            else next_boundary d (next_pos + 1))
         else next_boundary d (next_pos + 1))
      else next_pos)"
  by pat_completeness auto
termination
  by (relation "measure (\<lambda>(d, p). length d - p)") auto

declare next_boundary.simps [simp del]

lemma header_end_ge: "e \<le> header_end d e"
proof (induction d e rule: header_end.induct)
  case (1 d e)
  show ?case
  proof (cases "e < length d \<and> slice d e (e + 1) \<noteq> [0x5D]")
    case True
    with 1 have "e + 1 \<le> header_end d (e + 1)" by simp
    moreover from True have "header_end d e = header_end d (e + 1)"
      by (subst header_end.simps) simp
    ultimately show ?thesis by simp
  next
    case False
    then have "header_end d e = e" by (subst header_end.simps) auto
    then show ?thesis by simp
  qed
qed

lemma next_boundary_ge: "p \<le> next_boundary d p"
proof (induction d p rule: next_boundary.induct)
  case (1 d p)
  show ?case
  proof (cases "p < length d")
    case False
    then have "next_boundary d p = p" by (subst next_boundary.simps) simp
    then show ?thesis by simp
  next
    case lt: True
    show ?thesis
    proof (cases "slice d p (p + 1) = [0x5B]")
      case False
      with lt have "next_boundary d p = next_boundary d (p + 1)"
        by (subst next_boundary.simps) simp
      with 1(2) [OF lt False] show ?thesis by simp
    next
      case sl: True
      show ?thesis
      proof (cases "header_end d (p + 1) < length d
               \<and> is_scene_header (utf8_decode_ignore (slice d p (header_end d (p + 1) + 1)))")
        case True
        with lt sl have "next_boundary d p = p"
          by (subst next_boundary.simps) (simp add: Let_def)
        then show ?thesis by simp
      next
        case False
        with lt sl have "next_boundary d p = next_boundary d (p + 1)"
          by (subst next_boundary.simps) (auto simp: Let_def)
        with 1(1) [OF lt sl refl False] show ?thesis by simp
      qed
    qed
  qed
qed

text \<open>
  The filename of a segment: \<open>scene_name = header.strip('[]')\<close>, the default
  \<open>scene_name + '.tat'\<close>, replaced by the path (without leading slashes) of the first entry
  of \<open>files\<close> whose path contains \<open>scene_name.split('_')[0]\<close>.
\<close>

fun match_files :: "ustr \<Rightarrow> index_entry list \<Rightarrow> ustr \<Rightarrow> ustr" where
  "match_files token [] filename = filename"
| "match_files token (f # fs) filename =
     (if sublist token (path f) then lstrip_chars (ascii ''/'') (path f)
      else match_files token fs filename)"

definition resolve_filename :: "ustr \<Rightarrow> index_entry list \<Rightarrow> ustr" where
  "resolve_filename header files =
     (let scene_name = strip_chars (ascii ''[]'') header
      in match_files (takeWhile (\<lambda>c. c \<noteq> 0x5F) scene_name) files
           (scene_name @ ascii ''.tat''))"

text \<open>
  The outer loop of \<open>find_file_data\<close>. Its result is the list of the assignments
  \<open>result[filename] = decompressed[start_pos:next_pos]\<close> it makes, in order, each as
  (filename, start_pos, next_pos).
\<close>

function split_loop :: "bytes \<Rightarrow> index_entry list \<Rightarrow> nat \<Rightarrow> (ustr \<times> nat \<times> nat) list" where
  "split_loop d files pos =
     (if pos < length d then
        (if slice d pos (pos + 1) = [0x5B] then
           (let e = header_end d (pos + 1) in
            if e < length d then
              (let header = utf8_decode_ignore (slice d pos (e + 1)) in
               if is_scene_header header then
                 (resolve_filename header files, pos, next_boundary d (e + 1))
                 # split_loop d files (next_boundary d (e + 1))
               else split_loop d files (pos + 1))
            else split_loop d files (pos + 1))
         else split_loop d files (pos + 1))
      else [])"
  by pat_completeness auto
termination
proof (relation "measure (\<lambda>(d, files, pos). length d - pos)", goal_cases)
  case 1
  show ?case by simp
next
  case (2 d files pos e header)
  have "pos + 1 \<le> header_end d (pos + 1)" by (rule header_end_ge)
  moreover have "header_end d (pos + 1) + 1 \<le> next_boundary d (header_end d (pos + 1) + 1)"
    by (rule next_boundary_ge)
  ultimately show ?case using 2 by simp
next
  case 3 then show ?case by simp
next
  case 4 then show ?case by simp
next
  case 5 then show ?case by simp
qed

declare split_loop.simps [simp del]

text \<open>
  \<open>find_file_data\<close>: the dictionary \<open>result\<close> after all the assignments, starting after
  a UTF-8 byte order mark.
\<close>

definition bom_skip :: "bytes \<Rightarrow> nat" where
  "bom_skip d = (if slice d 0 3 = [0xEF, 0xBB, 0xBF] then 3 else 0)"

definition find_file_data :: "bytes \<Rightarrow> index_entry list \<Rightarrow> (ustr \<rightharpoonup> bytes)" where
  "find_file_data d files =
     fold (\<lambda>(filename, start_pos, next_pos) result.
             result(filename \<mapsto> slice d start_pos next_pos))
          (split_loop d files (bom_skip d)) Map.empty"

section \<open>Vocabulary for the properties of the splitter\<close>

text \<open>
  A scene-boundary marker starts at offset \<open>p\<close>: the test that the outer loop makes at
  \<open>pos\<close> and the inner loop makes at \<open>next_pos\<close> (an open bracket, a closing bracket
  before the end of the payload, and a decoded header that \<open>is_scene_header\<close> accepts).
\<close>

definition scene_marker_at :: "bytes \<Rightarrow> nat \<Rightarrow> bool" where
  "scene_marker_at d p =
     (p < length d \<and> slice d p (p + 1) = [0x5B] \<and> header_end d (p + 1) < length d
      \<and> is_scene_header (utf8_decode_ignore (slice d p (header_end d (p + 1) + 1))))"


section \<open>Properties of the index scanner\<close>

lemma scan_paths_in_range:
  "(P, p) \<in> set (scan_paths data s) \<Longrightarrow> P + 2 \<le> length data"
proof (induction data s rule: scan_paths.induct)
  case (1 data search_pos)
  show ?case
  proof (cases "search_pos < length data")
    case False
    with 1(3) show ?thesis by (subst (asm) scan_paths.simps) simp
  next
    case lt: True
    show ?thesis
    proof (cases "slice data search_pos (search_pos + 2) = [0x2f, 0]")
      case True
      then have "length (slice data search_pos (search_pos + 2)) = 2" by simp
      then have here: "search_pos + 2 \<le> length data" by (simp add: slice_def)
      from 1(3) lt True
      have "P = search_pos \<or> (P, p) \<in> set (scan_paths data (path_end data search_pos))"
        by (subst (asm) scan_paths.simps) (auto split: option.splits if_splits)
      then show ?thesis using here 1(1) [OF lt True] by auto
    next
      case False
      with 1(3) lt have "(P, p) \<in> set (scan_paths data (search_pos + 1))"
        by (subst (asm) scan_paths.simps) simp
      then show ?thesis using 1(2) [OF lt False] by simp
    qed
  qed
qed

lemma build_entries_ok:
  assumes "\<forall>(P, p) \<in> set ps. P + 2 \<le> length data"
  shows "build_entries data ps =
     Inr (map (\<lambda>(P, p). \<lparr>path = p, metadata_offset = int P - 16,
                 val1 = le_nat (slice data (P - 16) (P - 16 + 4)),
                 val2 = le_nat (slice data (P - 16 + 4) (P - 16 + 8)),
                 path_prefix = le_nat (slice data (P - 16 + 8) (P - 16 + 10))\<rparr>)
            (filter (\<lambda>(P, p). 16 \<le> P) ps))"
  using assms
proof (induction ps)
  case Nil
  show ?case by simp
next
  case (Cons a ps)
  obtain P p where a: "a = (P, p)" by (cases a)
  from Cons.prems a have P: "P + 2 \<le> length data" by simp
  from Cons have IH: "build_entries data ps =
     Inr (map (\<lambda>(P, p). \<lparr>path = p, metadata_offset = int P - 16,
                 val1 = le_nat (slice data (P - 16) (P - 16 + 4)),
                 val2 = le_nat (slice data (P - 16 + 4) (P - 16 + 8)),
                 path_prefix = le_nat (slice data (P - 16 + 8) (P - 16 + 10))\<rparr>)
            (filter (\<lambda>(P, p). 16 \<le> P) ps))" by simp
  show ?case
  proof (cases "16 \<le> P")
    case False
    then show ?thesis using IH a by simp
  next
    case True
    then have n1: "nat (int P - 8) = P - 16 + 8" "nat (int P - 6) = P - 16 + 10"
      "nat (int P - 16) = P - 16" "nat (int P - 12) = P - 16 + 4" by simp_all
    have l1: "length (slice data (P - 16 + 8) (P - 16 + 10)) = 2"
      using P True by (simp add: slice_def)
    have l2: "length (slice data (P - 16) (P - 16 + 4)) = 4"
      using P True by (simp add: slice_def)
    have l3: "length (slice data (P - 16 + 4) (P - 16 + 8)) = 4"
      using P True by (simp add: slice_def)
    show ?thesis using True IH a l1 l2 l3
      by (simp add: n1 Let_def unpack_H_def unpack_I_def del: le_nat.simps)
  qed
qed

text \<open>
  Claim C6. \<open>_parse\<close> never fails, and its entries are, in scan order, exactly the
  candidate paths found at an offset \<open>P\<close> with \<open>P - 16 \<ge> 0\<close> (the others are dropped
  silently): the entry of such a path has \<open>metadata_offset = P - 16\<close>, which is not
  negative, \<open>val1\<close> and \<open>val2\<close> are the little-endian values of the four bytes at
  \<open>metadata_offset\<close> and at \<open>metadata_offset + 4\<close>, and \<open>path_prefix\<close> that of the two
  bytes at \<open>metadata_offset + 8\<close>; every one of these reads lies inside the buffer.
\<close>

theorem index_entry_metadata:
  "MemFSParser_parse data =
     Inr (map (\<lambda>(P, p). \<lparr>path = p, metadata_offset = int P - 16,
                 val1 = le_nat (slice data (P - 16) (P - 16 + 4)),
                 val2 = le_nat (slice data (P - 16 + 4) (P - 16 + 8)),
                 path_prefix = le_nat (slice data (P - 16 + 8) (P - 16 + 10))\<rparr>)
            (filter (\<lambda>(P, p). 16 \<le> P) (scan_paths data 0)))
   \<and> (\<forall>(P, p) \<in> set (scan_paths data 0). 16 \<le> P \<longrightarrow>
         0 \<le> int P - 16 \<and> P - 16 + 10 \<le> length data)"
proof
  have "\<forall>(P, p) \<in> set (scan_paths data 0). P + 2 \<le> length data"
    using scan_paths_in_range by blast
  then show "MemFSParser_parse data =
     Inr (map (\<lambda>(P, p). \<lparr>path = p, metadata_offset = int P - 16,
                 val1 = le_nat (slice data (P - 16) (P - 16 + 4)),
                 val2 = le_nat (slice data (P - 16 + 4) (P - 16 + 8)),
                 path_prefix = le_nat (slice data (P - 16 + 8) (P - 16 + 10))\<rparr>)
            (filter (\<lambda>(P, p). 16 \<le> P) (scan_paths data 0)))"
    unfolding MemFSParser_parse_def by (rule build_entries_ok)
next
  show "\<forall>(P, p) \<in> set (scan_paths data 0). 16 \<le> P \<longrightarrow>
         0 \<le> int P - 16 \<and> P - 16 + 10 \<le> length data"
    using scan_paths_in_range by fastforce
qed

lemma scan_paths_example:
  "scan_paths [1,0,0,0, 2,0,0,0, 0x88,0x34, 0,0,0,0,0,0,
               0x2f,0, 0x2e,0, 0x74,0, 0x61,0, 0x74,0] 0 = [(16, ascii ''/.tat'')]"
  by (simp add: scan_paths.simps path_end.simps slice_def is_content_path_def ascii_def
        Let_def sublist_Cons_right)

text \<open>
  The index \<open>01 00 00 00 02 00 00 00 88 34 00 .. 00\<close> followed by the UTF-16LE path
  \<open>/.tat\<close> at offset 16: one entry, with metadata offset 0.
\<close>

theorem index_entry_metadata_witness:
  "MemFSParser_parse [1,0,0,0, 2,0,0,0, 0x88,0x34, 0,0,0,0,0,0,
                      0x2f,0, 0x2e,0, 0x74,0, 0x61,0, 0x74,0]
   = Inr [\<lparr>path = ascii ''/.tat'', metadata_offset = 0, val1 = 1, val2 = 2,
            path_prefix = 0x3488\<rparr>]"
  using index_entry_metadata
    [of "[1,0,0,0, 2,0,0,0, 0x88,0x34, 0,0,0,0,0,0, 0x2f,0, 0x2e,0, 0x74,0, 0x61,0, 0x74,0]"]
  unfolding scan_paths_example by (simp add: slice_def)

section \<open>Properties of the dialogue extractor\<close>

lemma process_line_out:
  assumes "r \<in> set (snd (process_line f tc ls n l sp))"
  shows "r_line r = n + 1 \<and> r_full_line r = rstrip l \<and> r_file r = f
         \<and> r_context r = build_context ls n \<and> r_scene r = get_scene_header tc
         \<and> (if QUOTE_OPEN \<in> set (rstrip l) \<and> QUOTE_CLOSE \<in> set (rstrip l)
            then r_type r = None else r_type r = Some (ascii ''narrative''))"
  using assms by (auto simp: process_line_def Let_def split: if_splits)

lemma extract_loop_set:
  "r \<in> set (extract_loop f tc ls n rest sp res) \<Longrightarrow>
   r \<in> set res \<or> (\<exists>k sp0. k < length rest \<and> r \<in> set (snd (process_line f tc ls (n + k) (rest ! k) sp0)))"
proof (induction rest arbitrary: n sp res)
  case Nil
  then show ?case by simp
next
  case (Cons l rest)
  obtain sp' out where pl: "process_line f tc ls n l sp = (sp', out)" by (cases "process_line f tc ls n l sp")
  with Cons.prems have "r \<in> set (extract_loop f tc ls (n + 1) rest sp' (res @ out))" by simp
  from Cons.IH [OF this] consider "r \<in> set res" | "r \<in> set out"
    | k sp0 where "k < length rest" "r \<in> set (snd (process_line f tc ls (n + 1 + k) (rest ! k) sp0))"
    by auto
  then show ?case
  proof cases
    case 1 then show ?thesis by simp
  next
    case 2
    with pl have "r \<in> set (snd (process_line f tc ls (n + 0) ((l # rest) ! 0) sp))" by simp
    then show ?thesis by blast
  next
    case 3
    then have "Suc k < length (l # rest)" "r \<in> set (snd (process_line f tc ls (n + Suc k) ((l # rest) ! Suc k) sp0))" by simp_all
    then show ?thesis by blast
  qed
qed

lemma range_down_two: "a - b = 2 \<Longrightarrow> range_down a b = [a, a - 1]"
  by (simp add: range_down_def upt_rec [of 0] upt_rec [of "Suc 0"] numeral_2_eq_2)

lemma range_down_one: "a - b = 1 \<Longrightarrow> range_down a b = [a]"
  by (simp add: range_down_def)

lemma range_down_none: "a - b \<le> 0 \<Longrightarrow> range_down a b = []"
  by (simp add: range_down_def)

lemmas dialogue_eval = extract_dialogue_def process_line_def Let_def QUOTE_OPEN_def QUOTE_CLOSE_def
  SPEAKER_OPEN_def SPEAKER_CLOSE_def rstrip_def strip_def py_isspace_def has_japanese_def slice_def
  build_context_def range_down_two range_down_one range_down_none get_scene_header_def ascii_def
  strip_chars_def lstrip_chars_def rstrip_chars_def clean_narrative_def narrative_tags_def
  sublist_Cons_right

lemma build_context_window:
  assumes "3 \<le> n"
  shows "build_context lines n =
     join [10] (filter (\<lambda>c. c \<noteq> [] \<and> \<not> prefix (ascii ''//'') c)
                  [strip (lines ! (n - 2)), strip (lines ! (n - 1))])"
proof -
  have r: "range_down (int n - 1) (max 0 (int n - 3)) = [int n - 1, int n - 1 - 1]"
    using assms by (intro range_down_two) simp
  have n1: "nat (int n - 1) = n - 1" "nat (int n - 2) = n - 2" using assms by simp_all
  show ?thesis unfolding build_context_def r
    by (simp add: n1 Let_def del: join.simps)
qed

lemma narrative_example:
  "extract_dialogue [] [0x5F7C, 0x5973, 0x306F, 0x5FAE, 0x7B11] =
   [\<lparr>r_file = [], r_line = 1, r_speaker = [], r_text = [0x5F7C, 0x5973, 0x306F, 0x5FAE, 0x7B11],
     r_full_line = [0x5F7C, 0x5973, 0x306F, 0x5FAE, 0x7B11], r_context = [], r_scene = [],
     r_type = Some (ascii ''narrative'')\<rparr>]"
  by (simp add: dialogue_eval)

lemma context_example:
  "extract_dialogue []
     [120, 10, 121, 10, 97, 98, 99, 10, 47, 47, 99, 10, 0x300C, 0x3053, 0x3093, 0x300D] =
   [\<lparr>r_file = [], r_line = 5, r_speaker = [], r_text = [0x3053, 0x3093],
     r_full_line = [0x300C, 0x3053, 0x3093, 0x300D], r_context = [97, 98, 99], r_scene = [],
     r_type = None\<rparr>]"
  by (simp add: dialogue_eval)

subsection \<open>Claim C8: the type field\<close>

text \<open>
  Claim C8 as stated fails: the dictionary built by the dialogue rule has no \<open>'type'\<close>
  key. The one-line script \<open>\<lbrakk>U+300C U+3053 U+3093 U+300D\<rbrakk>\<close> (a quoted \<open>kon\<close>) yields one
  record, and its type field is absent.
\<close>

theorem dialogue_record_has_no_type:
  "map r_type (extract_dialogue [] [0x300C, 0x3053, 0x3093, 0x300D]) = [None]"
  by (simp add: dialogue_eval)

text \<open>
  Claim C8, amended. Every record of \<open>extract_dialogue\<close> built by the narrative rule
  carries \<open>type = 'narrative'\<close>, and every record built by the dialogue rule (its full
  line holds both quotation glyphs) carries no type field at all.
\<close>

theorem record_type_field:
  assumes "r \<in> set (extract_dialogue f tc)"
  shows "if QUOTE_OPEN \<in> set (r_full_line r) \<and> QUOTE_CLOSE \<in> set (r_full_line r)
         then r_type r = None else r_type r = Some (ascii ''narrative'')"
proof -
  from assms obtain k sp0 where
    "r \<in> set (snd (process_line f tc (split_on 10 tc) (0 + k) (split_on 10 tc ! k) sp0))"
    unfolding extract_dialogue_def Let_def by (auto dest: extract_loop_set)
  from process_line_out [OF this] show ?thesis by (simp split: if_splits)
qed

theorem record_type_field_witness:
  "hd (extract_dialogue [] [0x5F7C, 0x5973, 0x306F, 0x5FAE, 0x7B11])
     \<in> set (extract_dialogue [] [0x5F7C, 0x5973, 0x306F, 0x5FAE, 0x7B11])
   \<and> r_type (hd (extract_dialogue [] [0x5F7C, 0x5973, 0x306F, 0x5FAE, 0x7B11]))
       = Some (ascii ''narrative'')"
proof -
  have m: "hd (extract_dialogue [] [0x5F7C, 0x5973, 0x306F, 0x5FAE, 0x7B11])
     \<in> set (extract_dialogue [] [0x5F7C, 0x5973, 0x306F, 0x5FAE, 0x7B11])"
    unfolding narrative_example by simp
  have q: "\<not> (QUOTE_OPEN \<in> set (r_full_line
              (hd (extract_dialogue [] [0x5F7C, 0x5973, 0x306F, 0x5FAE, 0x7B11]))))"
    unfolding narrative_example by (simp add: QUOTE_OPEN_def)
  from record_type_field [OF m] q m show ?thesis by simp
qed

subsection \<open>Claim C5: the current speaker\<close>




subsection \<open>Claim C4: the code points that make a dialogue meaningful\<close>

text \<open>
  Claim C4 at the input the code gets wrong. The comment of \<open>_has_japanese\<close> lists
  Hiragana (3040-309F), Katakana (30A0-30FF) and Kanji (4E00-9FFF); the test it makes
  is \<open>0x3040 <= ord(c) <= 0x9FFF\<close>, which also holds between 0x3100 and 0x4DFF. The
  quoted text \<open>U+3400 U+3400\<close> has no code point in the three ranges, and the dialogue
  rule emits a record for it.
\<close>

theorem dialogue_accepts_gap_codepoints:
  "map r_text (extract_dialogue [] [0x300C, 0x3400, 0x3400, 0x300D]) = [[0x3400, 0x3400]]"
  by (simp add: dialogue_eval)

subsection \<open>Claim C9: the context of a record\<close>

text \<open>
  Claim C9 as stated fails: the walk backward is not unbounded. In the script of the
  lines \<open>[A_TOP]\<close>, \<open>abc\<close>, two empty lines and a quoted \<open>kon\<close>, the two nearest preceding
  qualifying lines are \<open>[A_TOP]\<close> and \<open>abc\<close>, and the context of the record is empty.
\<close>

theorem context_walk_is_bounded:
  "map r_context (extract_dialogue []
     [91, 65, 95, 84, 79, 80, 93, 10, 97, 98, 99, 10, 10, 10,
      0x300C, 0x3053, 0x3093, 0x300D]) = [[]]"
  by (simp add: dialogue_eval)

text \<open>
  Claim C9, amended. For a record at line 4 or later (1-based), the context is made of
  the two lines immediately before the record's line only: those of the two that, once
  stripped, are not empty and do not start with \<open>//\<close>, stripped, in their original
  order, joined by a newline.
\<close>

theorem context_window:
  assumes "r \<in> set (extract_dialogue f tc)" and "4 \<le> r_line r"
  shows "r_context r =
     join [10] (filter (\<lambda>c. c \<noteq> [] \<and> \<not> prefix (ascii ''//'') c)
                  [strip (split_on 10 tc ! (r_line r - 3)),
                   strip (split_on 10 tc ! (r_line r - 2))])"
proof -
  from assms(1) obtain k sp0 where
    "r \<in> set (snd (process_line f tc (split_on 10 tc) (0 + k) (split_on 10 tc ! k) sp0))"
    unfolding extract_dialogue_def Let_def by (auto dest: extract_loop_set)
  then have a: "r_line r = k + 1" and b: "r_context r = build_context (split_on 10 tc) k"
    using process_line_out by fastforce+
  from a assms(2) have "3 \<le> k" by simp
  from build_context_window [OF this] a b show ?thesis by simp
qed

theorem context_window_witness:
  "hd (extract_dialogue []
     [120, 10, 121, 10, 97, 98, 99, 10, 47, 47, 99, 10, 0x300C, 0x3053, 0x3093, 0x300D])
   \<in> set (extract_dialogue []
     [120, 10, 121, 10, 97, 98, 99, 10, 47, 47, 99, 10, 0x300C, 0x3053, 0x3093, 0x300D])
   \<and> r_context (hd (extract_dialogue []
     [120, 10, 121, 10, 97, 98, 99, 10, 47, 47, 99, 10, 0x300C, 0x3053, 0x3093, 0x300D]))
     = join [10] (filter (\<lambda>c. c \<noteq> [] \<and> \<not> prefix (ascii ''//'') c)
                   [[97, 98, 99], [47, 47, 99]])"
proof -
  have m: "hd (extract_dialogue []
     [120, 10, 121, 10, 97, 98, 99, 10, 47, 47, 99, 10, 0x300C, 0x3053, 0x3093, 0x300D])
   \<in> set (extract_dialogue []
     [120, 10, 121, 10, 97, 98, 99, 10, 47, 47, 99, 10, 0x300C, 0x3053, 0x3093, 0x300D])"
    unfolding context_example by simp
  have l: "4 \<le> r_line (hd (extract_dialogue []
     [120, 10, 121, 10, 97, 98, 99, 10, 47, 47, 99, 10, 0x300C, 0x3053, 0x3093, 0x300D]))"
    unfolding context_example by simp
  from context_window [OF m l] m show ?thesis
    unfolding context_example by (simp add: strip_def rstrip_def py_isspace_def)
qed

section \<open>Properties of the segment splitter\<close>



lemma next_boundary_unfold:
  "next_boundary d p =
     (if p < length d then if scene_marker_at d p then p else next_boundary d (p + 1) else p)"
  by (subst next_boundary.simps) (auto simp: scene_marker_at_def Let_def)

lemma split_loop_unfold:
  "split_loop d files pos =
     (if pos < length d then
        if scene_marker_at d pos then
          (resolve_filename (utf8_decode_ignore (slice d pos (header_end d (pos + 1) + 1))) files,
           pos, next_boundary d (header_end d (pos + 1) + 1))
          # split_loop d files (next_boundary d (header_end d (pos + 1) + 1))
        else split_loop d files (pos + 1)
      else [])"
  by (subst split_loop.simps) (auto simp: scene_marker_at_def Let_def)













subsection \<open>Claim C1: the segments are contiguous\<close>



section \<open>Properties of the header decoding\<close>

lemma utf8_step_ascii: "ch < 0x80 \<Longrightarrow> utf8_step ch s = (Some (unat ch), 1)"
  by (simp add: utf8_step_def)

lemma byte_eq_unat:
  "((ch :: byte) = 0xE0) = (unat ch = 224)" "((ch :: byte) = 0xED) = (unat ch = 237)"
  "((ch :: byte) = 0xF0) = (unat ch = 240)" "((ch :: byte) = 0xF4) = (unat ch = 244)"
  by (simp_all add: word_unat_eq_iff)

lemma utf8_seq2_props:
  assumes "0xC2 \<le> ch"
  shows "(\<forall>x. fst (utf8_seq2 ch s) = Some x \<longrightarrow> 128 \<le> x)
       \<and> snd (utf8_seq2 ch s) - 1 \<le> length s
       \<and> (\<forall>b \<in> set (take (snd (utf8_seq2 ch s) - 1) s). \<not> b < 0x80)"
  using assms
  by (cases s) (auto simp: utf8_seq2_def is_cont_def word_less_nat_alt word_le_nat_alt)

lemma utf8_seq3_props:
  assumes "0xE0 \<le> ch"
  shows "(\<forall>x. fst (utf8_seq3 ch s) = Some x \<longrightarrow> 128 \<le> x)
       \<and> snd (utf8_seq3 ch s) - 1 \<le> length s
       \<and> (\<forall>b \<in> set (take (snd (utf8_seq3 ch s) - 1) s). \<not> b < 0x80)"
proof (cases s)
  case Nil
  then show ?thesis by (simp add: utf8_seq3_def)
next
  case s: (Cons ch2 s2)
  show ?thesis
  proof (cases s2)
    case Nil
    with s assms show ?thesis
      by (auto simp: utf8_seq3_def is_cont_def word_less_nat_alt word_le_nat_alt)
  next
    case (Cons ch3 s3)
    with s assms show ?thesis
      by (auto simp: utf8_seq3_def is_cont_def word_less_nat_alt word_le_nat_alt byte_eq_unat
          split: if_splits)
  qed
qed

lemma utf8_seq4_props:
  assumes "0xF0 \<le> ch"
  shows "(\<forall>x. fst (utf8_seq4 ch s) = Some x \<longrightarrow> 128 \<le> x)
       \<and> snd (utf8_seq4 ch s) - 1 \<le> length s
       \<and> (\<forall>b \<in> set (take (snd (utf8_seq4 ch s) - 1) s). \<not> b < 0x80)"
proof (cases s)
  case Nil
  then show ?thesis by (simp add: utf8_seq4_def)
next
  case s: (Cons ch2 s2)
  show ?thesis
  proof (cases s2)
    case Nil
    with s assms show ?thesis
      by (auto simp: utf8_seq4_def is_cont_def word_less_nat_alt word_le_nat_alt)
  next
    case s2: (Cons ch3 s3)
    show ?thesis
    proof (cases s3)
      case Nil
      with s s2 assms show ?thesis
        by (auto simp: utf8_seq4_def is_cont_def word_less_nat_alt word_le_nat_alt
            split: if_splits)
    next
      case (Cons ch4 s4)
      with s s2 assms show ?thesis
        by (auto simp: utf8_seq4_def is_cont_def word_less_nat_alt word_le_nat_alt
            byte_eq_unat split: if_splits)
    qed
  qed
qed

lemma utf8_step_nonascii:
  assumes "\<not> ch < 0x80"
  shows "(\<forall>x. fst (utf8_step ch s) = Some x \<longrightarrow> 128 \<le> x)
       \<and> snd (utf8_step ch s) - 1 \<le> length s
       \<and> (\<forall>b \<in> set (take (snd (utf8_step ch s) - 1) s). \<not> b < 0x80)"
proof -
  consider "ch < 0xC2" | "0xC2 \<le> ch" "ch < 0xE0" | "0xE0 \<le> ch" "ch < 0xF0"
    | "0xF0 \<le> ch" "ch < 0xF5" | "0xF5 \<le> ch"
    by (meson not_le)
  then show ?thesis
  proof cases
    case 1
    with assms show ?thesis by (simp add: utf8_step_def)
  next
    case 2
    then have "utf8_step ch s = utf8_seq2 ch s" using assms
      by (auto simp: utf8_step_def word_less_nat_alt word_le_nat_alt)
    with utf8_seq2_props [OF 2(1)] show ?thesis by simp
  next
    case 3
    then have "utf8_step ch s = utf8_seq3 ch s" using assms
      by (auto simp: utf8_step_def word_less_nat_alt word_le_nat_alt)
    with utf8_seq3_props [OF 3(1)] show ?thesis by simp
  next
    case 4
    then have "utf8_step ch s = utf8_seq4 ch s" using assms
      by (auto simp: utf8_step_def word_less_nat_alt word_le_nat_alt)
    with utf8_seq4_props [OF 4(1)] show ?thesis by simp
  next
    case 5
    then have "utf8_step ch s = (None, 1)"
      by (auto simp: utf8_step_def word_less_nat_alt word_le_nat_alt)
    then show ?thesis by simp
  qed
qed


lemma utf8_decode_cons:
  "utf8_decode_ignore (ch # s) =
     (case fst (utf8_step ch s) of Some c \<Rightarrow> [c] | None \<Rightarrow> [])
     @ utf8_decode_ignore (drop (snd (utf8_step ch s) - 1) s)"
  by (simp split: option.splits)

lemma utf8_ascii_projection:
  "filter (\<lambda>c. c < 128) (utf8_decode_ignore bs) = map unat (filter (\<lambda>b. b < 0x80) bs)"
proof (induction "length bs" arbitrary: bs rule: less_induct)
  case less
  show ?case
  proof (cases bs)
    case Nil
    then show ?thesis by simp
  next
    case (Cons ch s)
    define n where "n = snd (utf8_step ch s) - 1"
    have IH: "filter (\<lambda>c. c < 128) (utf8_decode_ignore (drop n s))
                = map unat (filter (\<lambda>b. b < 0x80) (drop n s))"
      using less [of "drop n s"] Cons by simp
    show ?thesis
    proof (cases "ch < 0x80")
      case True
      then have st: "utf8_step ch s = (Some (unat ch), 1)" by (rule utf8_step_ascii)
      then have "n = 0" by (simp add: n_def)
      with IH st True Cons show ?thesis
        by (simp add: word_less_nat_alt del: utf8_decode_ignore.simps add: utf8_decode_cons)
    next
      case False
      from utf8_step_nonascii [OF False, of s]
      have e: "\<forall>x. fst (utf8_step ch s) = Some x \<longrightarrow> 128 \<le> x"
        and t: "\<forall>b \<in> set (take n s). \<not> b < 0x80" unfolding n_def by auto
      have "filter (\<lambda>b. b < 0x80) s
              = filter (\<lambda>b. b < 0x80) (take n s) @ filter (\<lambda>b. b < 0x80) (drop n s)"
        by (metis append_take_drop_id filter_append)
      moreover have "filter (\<lambda>b. b < 0x80) (take n s) = []" using t by (simp add: filter_empty_conv)
      ultimately have f: "filter (\<lambda>b. b < 0x80) s = filter (\<lambda>b. b < 0x80) (drop n s)" by simp
      have "filter (\<lambda>c. c < 128) (case fst (utf8_step ch s) of Some c \<Rightarrow> [c] | None \<Rightarrow> []) = []"
        using e by (auto split: option.splits)
      then have "filter (\<lambda>c. c < 128) (utf8_decode_ignore (ch # s))
                   = filter (\<lambda>c. c < 128) (utf8_decode_ignore (drop n s))"
        unfolding utf8_decode_cons n_def by simp
      with IH f False Cons show ?thesis by simp
    qed
  qed
qed

lemma utf8_last_ascii:
  "bs \<noteq> [] \<Longrightarrow> last bs < 0x80 \<Longrightarrow>
   utf8_decode_ignore bs \<noteq> [] \<and> last (utf8_decode_ignore bs) = unat (last bs)"
proof (induction "length bs" arbitrary: bs rule: less_induct)
  case less
  from less.prems obtain ch s where bs: "bs = ch # s" by (cases bs) auto
  define n where "n = snd (utf8_step ch s) - 1"
  show ?case
  proof (cases "ch < 0x80")
    case True
    then have st: "utf8_step ch s = (Some (unat ch), 1)" by (rule utf8_step_ascii)
    then have d: "utf8_decode_ignore bs = unat ch # utf8_decode_ignore s"
      unfolding bs utf8_decode_cons by simp
    show ?thesis
    proof (cases "s = []")
      case True
      with d bs show ?thesis by simp
    next
      case False
      with less.prems bs have "last s < 0x80" by simp
      with less.hyps [of s] False bs
      have "utf8_decode_ignore s \<noteq> [] \<and> last (utf8_decode_ignore s) = unat (last s)" by simp
      with d bs False show ?thesis by simp
    qed
  next
    case False
    from utf8_step_nonascii [OF False, of s]
    have t: "\<forall>b \<in> set (take n s). \<not> b < 0x80" unfolding n_def by auto
    have sne: "s \<noteq> []" using less.prems False bs by auto
    then have ls: "last s < 0x80" using less.prems bs by simp
    have nl: "n < length s"
    proof (rule ccontr)
      assume "\<not> n < length s"
      then have "take n s = s" by simp
      with t sne have "\<not> last s < 0x80" by (metis last_in_set)
      with ls show False by simp
    qed
    then have dne: "drop n s \<noteq> []" and ld: "last (drop n s) = last s" by simp_all
    from less.hyps [of "drop n s"] dne ld ls bs
    have r: "utf8_decode_ignore (drop n s) \<noteq> []
             \<and> last (utf8_decode_ignore (drop n s)) = unat (last s)" by simp
    have "utf8_decode_ignore bs =
            (case fst (utf8_step ch s) of Some c \<Rightarrow> [c] | None \<Rightarrow> [])
            @ utf8_decode_ignore (drop n s)"
      unfolding bs n_def by (rule utf8_decode_cons)
    with r bs sne show ?thesis by simp
  qed
qed

lemma header_end_spec:
  "e0 \<le> length d \<Longrightarrow>
   header_end d e0 \<le> length d
   \<and> (\<forall>r. e0 \<le> r \<and> r < header_end d e0 \<longrightarrow> d ! r \<noteq> 0x5D)
   \<and> (header_end d e0 < length d \<longrightarrow> d ! header_end d e0 = 0x5D)"
proof (induction "length d - e0" arbitrary: e0)
  case 0
  then have "header_end d e0 = e0" by (subst header_end.simps) simp
  with 0 show ?case by auto
next
  case (Suc n)
  then have lt: "e0 < length d" by simp
  then have sl: "slice d e0 (e0 + 1) = [d ! e0]" by (simp add: slice_def take_Suc_conv_app_nth)
  show ?case
  proof (cases "d ! e0 = 0x5D")
    case True
    with lt sl have "header_end d e0 = e0" by (subst header_end.simps) simp
    with lt True show ?thesis by auto
  next
    case False
    with lt sl have eq: "header_end d e0 = header_end d (e0 + 1)"
      by (subst header_end.simps) simp
    from Suc(2) lt have "n = length d - (e0 + 1)" "e0 + 1 \<le> length d" by simp_all
    from Suc(1) [OF this] have IH: "header_end d (e0 + 1) \<le> length d"
      "\<forall>r. e0 + 1 \<le> r \<and> r < header_end d (e0 + 1) \<longrightarrow> d ! r \<noteq> 0x5D"
      "header_end d (e0 + 1) < length d \<longrightarrow> d ! header_end d (e0 + 1) = 0x5D" by auto
    have "\<forall>r. e0 \<le> r \<and> r < header_end d (e0 + 1) \<longrightarrow> d ! r \<noteq> 0x5D"
    proof (intro allI impI)
      fix r assume "e0 \<le> r \<and> r < header_end d (e0 + 1)"
      then have "r = e0 \<or> (e0 + 1 \<le> r \<and> r < header_end d (e0 + 1))" by auto
      with False IH(2) show "d ! r \<noteq> 0x5D" by auto
    qed
    with IH(1,3) show ?thesis unfolding eq by simp
  qed
qed

lemma sublist_iff_suffix_last:
  assumes "t \<noteq> []" and "last t = c" and "c \<notin> set xs"
  shows "sublist t (xs @ [c]) \<longleftrightarrow> suffix t (xs @ [c])"
proof
  assume "suffix t (xs @ [c])"
  then show "sublist t (xs @ [c])" by (rule suffix_imp_sublist)
next
  assume "sublist t (xs @ [c])"
  then obtain ps ss where eq: "xs @ [c] = ps @ t @ ss" by (auto simp: sublist_def)
  have "ss = []"
  proof (rule ccontr)
    assume "ss \<noteq> []"
    then obtain ss' z where ss: "ss = ss' @ [z]" by (metis rev_exhaust)
    with eq have "xs @ [c] = (ps @ t @ ss') @ [z]" by simp
    then have "xs = ps @ t @ ss'" by simp
    moreover have "c \<in> set t" using assms(1,2) by (metis last_in_set)
    ultimately have "c \<in> set xs" by simp
    with assms(3) show False by simp
  qed
  with eq show "suffix t (xs @ [c])" by (auto simp: suffix_def)
qed

lemma header_bytes:
  assumes b: "slice d p (p + 1) = [0x5B]" and e: "header_end d (p + 1) < length d"
  shows "\<exists>mid. slice d p (header_end d (p + 1) + 1) = mid @ [0x5D] \<and> 0x5D \<notin> set mid"
proof -
  define e where "e = header_end d (p + 1)"
  have pe: "p + 1 \<le> e" unfolding e_def by (rule header_end_ge)
  have el: "e < length d" using assms(2) by (simp add: e_def)
  then have pl: "p + 1 \<le> length d" using pe by simp
  from header_end_spec [OF pl]
  have no: "\<forall>r. p + 1 \<le> r \<and> r < e \<longrightarrow> d ! r \<noteq> 0x5D" and at: "d ! e = 0x5D"
    using el unfolding e_def by auto
  have "slice d p (p + 1) = [d ! p]" using pl by (simp add: slice_def take_Suc_conv_app_nth)
  with b have dp: "d ! p = 0x5B" by simp
  have "e + 1 - p = Suc (e - p)" using pe by simp
  then have "slice d p (e + 1) = take (e - p) (drop p d) @ [drop p d ! (e - p)]"
    using el pe by (simp add: slice_def take_Suc_conv_app_nth)
  moreover have "drop p d ! (e - p) = d ! e" using pe el by simp
  ultimately have split: "slice d p (e + 1) = slice d p e @ [0x5D]"
    using at by (simp add: slice_def)
  have "0x5D \<notin> set (slice d p e)"
  proof
    assume "0x5D \<in> set (slice d p e)"
    then obtain i where i: "i < length (slice d p e)" "slice d p e ! i = 0x5D"
      by (auto simp: in_set_conv_nth)
    then have ie: "i < e - p" by (simp add: slice_def)
    with i(2) el pe have "d ! (p + i) = 0x5D" by (simp add: slice_def)
    moreover have "d ! (p + i) \<noteq> 0x5D"
    proof (cases i)
      case 0
      with dp show ?thesis by simp
    next
      case (Suc j)
      with ie no show ?thesis by simp
    qed
    ultimately show False by simp
  qed
  with split show ?thesis unfolding e_def by blast
qed

lemma decoded_header_shape:
  assumes "hb = mid @ [0x5D]" and "0x5D \<notin> set mid"
  shows "\<exists>xs. utf8_decode_ignore hb = xs @ [93] \<and> 93 \<notin> set xs"
proof -
  define h where "h = utf8_decode_ignore hb"
  have "hb \<noteq> []" "last hb < 0x80" using assms(1) by simp_all
  from utf8_last_ascii [OF this] have hne: "h \<noteq> []" and hl: "last h = 93"
    using assms(1) by (simp_all add: h_def)
  then have hs: "h = butlast h @ [93]" by (metis append_butlast_last_id)
  have "filter (\<lambda>c. c = 93) h = filter (\<lambda>c. c = 93) (filter (\<lambda>c. c < 128) h)"
    by (simp add: conj_commute cong: conj_cong)
  also have "\<dots> = filter (\<lambda>c. c = 93) (map unat (filter (\<lambda>b. b < 0x80) hb))"
    unfolding h_def utf8_ascii_projection ..
  also have "\<dots> = map unat (filter (\<lambda>b. b = 0x5D) (filter (\<lambda>b. b < 0x80) hb))"
    by (simp add: filter_map comp_def word_unat_eq_iff)
  also have "\<dots> = map unat (filter (\<lambda>b. b = 0x5D) hb)"
    by (simp add: conj_commute cong: conj_cong)
  also have "\<dots> = [93]" using assms by (auto simp: filter_empty_conv)
  finally have one: "filter (\<lambda>c. c = 93) h = [93]" .
  have "filter (\<lambda>c. c = 93) h = filter (\<lambda>c. c = 93) (butlast h) @ [93]"
    by (subst hs) simp
  with one have "filter (\<lambda>c. c = 93) (butlast h) = []" by simp
  then have "93 \<notin> set (butlast h)" by (auto simp: filter_empty_conv)
  with hs show ?thesis unfolding h_def by blast
qed

subsection \<open>Claim C7: the classification of a bracketed marker\<close>

text \<open>
  Claim C7. A bracketed marker is what both scans look at: an open bracket at \<open>p\<close> and
  the first closing bracket after it, before the end of the payload. The code tests
  whether its decoded text contains \<open>_TOP]\<close>, \<open>_START]\<close> or \<open>_END]\<close>; since the decoded
  text of a marker has its only closing bracket at its end, that is the same as ending
  with one of them. The test is the function \<open>is_scene_header\<close> of the decoded text
  alone, and the outer scan (\<open>split_loop\<close>) and the next-boundary scan
  (\<open>next_boundary\<close>) both decide by it, through \<open>scene_marker_at\<close>.
\<close>

theorem scene_header_classification:
  assumes "slice d p (p + 1) = [0x5B]" and "header_end d (p + 1) < length d"
  shows "(is_scene_header (utf8_decode_ignore (slice d p (header_end d (p + 1) + 1)))
     \<longleftrightarrow> (suffix (ascii ''_TOP]'') (utf8_decode_ignore (slice d p (header_end d (p + 1) + 1)))
          \<or> suffix (ascii ''_START]'') (utf8_decode_ignore (slice d p (header_end d (p + 1) + 1)))
          \<or> suffix (ascii ''_END]'') (utf8_decode_ignore (slice d p (header_end d (p + 1) + 1)))))
   \<and> next_boundary d q =
       (if q < length d then if scene_marker_at d q then q else next_boundary d (q + 1) else q)
   \<and> split_loop d files q =
       (if q < length d then
          if scene_marker_at d q then
            (resolve_filename (utf8_decode_ignore (slice d q (header_end d (q + 1) + 1))) files,
             q, next_boundary d (header_end d (q + 1) + 1))
            # split_loop d files (next_boundary d (header_end d (q + 1) + 1))
          else split_loop d files (q + 1)
        else [])"
proof (intro conjI)
  from header_bytes [OF assms] obtain mid where
    "slice d p (header_end d (p + 1) + 1) = mid @ [0x5D]" "0x5D \<notin> set mid" by blast
  from decoded_header_shape [OF this] obtain xs where
    h: "utf8_decode_ignore (slice d p (header_end d (p + 1) + 1)) = xs @ [93]" and n: "93 \<notin> set xs"
    by blast
  have "sublist (ascii ''_TOP]'') (xs @ [93]) \<longleftrightarrow> suffix (ascii ''_TOP]'') (xs @ [93])"
    by (rule sublist_iff_suffix_last [OF _ _ n]) (simp_all add: ascii_def)
  moreover
  have "sublist (ascii ''_START]'') (xs @ [93]) \<longleftrightarrow> suffix (ascii ''_START]'') (xs @ [93])"
    by (rule sublist_iff_suffix_last [OF _ _ n]) (simp_all add: ascii_def)
  moreover
  have "sublist (ascii ''_END]'') (xs @ [93]) \<longleftrightarrow> suffix (ascii ''_END]'') (xs @ [93])"
    by (rule sublist_iff_suffix_last [OF _ _ n]) (simp_all add: ascii_def)
  ultimately show "is_scene_header (utf8_decode_ignore (slice d p (header_end d (p + 1) + 1)))
     \<longleftrightarrow> (suffix (ascii ''_TOP]'') (utf8_decode_ignore (slice d p (header_end d (p + 1) + 1)))
          \<or> suffix (ascii ''_START]'') (utf8_decode_ignore (slice d p (header_end d (p + 1) + 1)))
          \<or> suffix (ascii ''_END]'') (utf8_decode_ignore (slice d p (header_end d (p + 1) + 1))))"
    unfolding h is_scene_header_def by simp
next
  show "next_boundary d q =
       (if q < length d then if scene_marker_at d q then q else next_boundary d (q + 1) else q)"
    by (rule next_boundary_unfold)
next
  show "split_loop d files q =
       (if q < length d then
          if scene_marker_at d q then
            (resolve_filename (utf8_decode_ignore (slice d q (header_end d (q + 1) + 1))) files,
             q, next_boundary d (header_end d (q + 1) + 1))
            # split_loop d files (next_boundary d (header_end d (q + 1) + 1))
          else split_loop d files (q + 1)
        else [])"
    by (rule split_loop_unfold)
qed

text \<open>The payload \<open>[A_TOP]\<close>: the marker at offset 0 is a scene header, and ends with a suffix.\<close>

theorem scene_header_classification_witness:
  "slice [0x5B,0x41,0x5F,0x54,0x4F,0x50,0x5D] 0 (0 + 1) = [0x5B :: byte]
   \<and> header_end [0x5B,0x41,0x5F,0x54,0x4F,0x50,0x5D] (0 + 1) < length [0x5B,0x41,0x5F,0x54,0x4F,0x50,0x5D]
   \<and> is_scene_header (utf8_decode_ignore (slice [0x5B,0x41,0x5F,0x54,0x4F,0x50,0x5D] 0 (header_end [0x5B,0x41,0x5F,0x54,0x4F,0x50,0x5D] (0 + 1) + 1)))
   \<and> (suffix (ascii ''_TOP]'') (utf8_decode_ignore (slice [0x5B,0x41,0x5F,0x54,0x4F,0x50,0x5D] 0 (header_end [0x5B,0x41,0x5F,0x54,0x4F,0x50,0x5D] (0 + 1) + 1)))
      \<or> suffix (ascii ''_START]'') (utf8_decode_ignore (slice [0x5B,0x41,0x5F,0x54,0x4F,0x50,0x5D] 0 (header_end [0x5B,0x41,0x5F,0x54,0x4F,0x50,0x5D] (0 + 1) + 1)))
      \<or> suffix (ascii ''_END]'') (utf8_decode_ignore (slice [0x5B,0x41,0x5F,0x54,0x4F,0x50,0x5D] 0 (header_end [0x5B,0x41,0x5F,0x54,0x4F,0x50,0x5D] (0 + 1) + 1))))"
proof -
  have a1: "slice [0x5B,0x41,0x5F,0x54,0x4F,0x50,0x5D] 0 (0 + 1) = [0x5B :: byte]"
    by (simp add: slice_def)
  have a2: "header_end [0x5B,0x41,0x5F,0x54,0x4F,0x50,0x5D] (0 + 1) < length [0x5B,0x41,0x5F,0x54,0x4F,0x50,0x5D]"
    by (simp add: header_end.simps slice_def)
  have ev: "is_scene_header (utf8_decode_ignore (slice [0x5B,0x41,0x5F,0x54,0x4F,0x50,0x5D] 0 (header_end [0x5B,0x41,0x5F,0x54,0x4F,0x50,0x5D] (0 + 1) + 1)))"
    by (simp add: header_end.simps slice_def is_scene_header_def ascii_def sublist_Cons_right
        utf8_step_def)
  from scene_header_classification [OF a1 a2] ev a1 a2 show ?thesis by blast
qed

section \<open>Properties of the output mapping\<close>

lemma fold_update_dom:
  assumes F: "\<And>f a b m. F (f, a, b) m = m(f \<mapsto> g a b)"
  shows "dom (fold F segs m0) = dom m0 \<union> fst ` set segs"
proof (induction segs arbitrary: m0)
  case Nil
  show ?case by simp
next
  case (Cons x segs)
  obtain f a b where x: "x = (f, a, b)" by (cases x)
  have "dom (fold F (x # segs) m0) = dom (F x m0) \<union> fst ` set segs"
    by (simp add: Cons.IH)
  also have "dom (F x m0) = insert f (dom m0)" unfolding x F by simp
  finally show ?case unfolding x by auto
qed

lemma fold_update_last:
  assumes F: "\<And>f a b m. F (f, a, b) m = m(f \<mapsto> g a b)"
    and "i < length segs" and "segs ! i = (f, a, b)"
    and "\<forall>j. i < j \<and> j < length segs \<longrightarrow> fst (segs ! j) \<noteq> f"
  shows "fold F segs m0 f = Some (g a b)"
  using assms(2-)
proof (induction segs rule: rev_induct)
  case Nil
  then show ?case by simp
next
  case (snoc x xs)
  obtain f' a' b' where x: "x = (f', a', b')" by (cases x)
  have st: "fold F (xs @ [x]) m0 = (fold F xs m0)(f' \<mapsto> g a' b')"
    unfolding x by (simp add: F)
  show ?case
  proof (cases "i = length xs")
    case True
    with snoc.prems(2) x have "f' = f" "a' = a" "b' = b" by simp_all
    then show ?thesis unfolding st by simp
  next
    case False
    with snoc.prems(1) have il: "i < length xs" by simp
    then have at: "xs ! i = (f, a, b)" using snoc.prems(2) by (simp add: nth_append)
    have later: "\<forall>j. i < j \<and> j < length xs \<longrightarrow> fst (xs ! j) \<noteq> f"
    proof (intro allI impI)
      fix j assume j: "i < j \<and> j < length xs"
      then have "i < j \<and> j < length (xs @ [x])" by simp
      with snoc.prems(3) have "fst ((xs @ [x]) ! j) \<noteq> f" by blast
      with j show "fst (xs ! j) \<noteq> f" by (simp add: nth_append)
    qed
    have "i < length xs \<and> length xs < length (xs @ [x])" using il by simp
    with snoc.prems(3) have "fst ((xs @ [x]) ! length xs) \<noteq> f" by blast
    then have ne: "f' \<noteq> f" using x by simp
    from snoc.IH [OF il at later] have "fold F xs m0 f = Some (g a b)" .
    with ne show ?thesis unfolding st by simp
  qed
qed

lemma collide_example:
  "split_loop [0x5B,0x41,0x5F,0x54,0x4F,0x50,0x5D,0x78,
               0x5B,0x41,0x5F,0x54,0x4F,0x50,0x5D,0x79] [] 0
   = [(ascii ''A_TOP.tat'', 0, 8), (ascii ''A_TOP.tat'', 8, 16)]"
  by (simp add: split_loop.simps next_boundary.simps header_end.simps slice_def Let_def
      is_scene_header_def ascii_def sublist_Cons_right resolve_filename_def strip_chars_def
      lstrip_chars_def rstrip_chars_def utf8_step_def)

subsection \<open>Claim C10: the last segment of a filename wins\<close>

text \<open>
  Claim C10. The keys of the mapping \<open>find_file_data\<close> returns are the filenames of the
  segments, so it never has more entries than there are segments; and for each segment
  that is the last one of its filename, the mapping holds that segment's bytes under the
  filename. Earlier segments of the same filename are overwritten without a trace.
\<close>

theorem last_segment_wins:
  "dom (find_file_data d files) = fst ` set (split_loop d files (bom_skip d))
   \<and> card (dom (find_file_data d files)) \<le> length (split_loop d files (bom_skip d))
   \<and> (\<forall>i f a b.
         i < length (split_loop d files (bom_skip d))
         \<and> split_loop d files (bom_skip d) ! i = (f, a, b)
         \<and> (\<forall>j. i < j \<and> j < length (split_loop d files (bom_skip d))
                \<longrightarrow> fst (split_loop d files (bom_skip d) ! j) \<noteq> f)
         \<longrightarrow> find_file_data d files f = Some (slice d a b))"
proof (intro conjI allI impI)
  show dm: "dom (find_file_data d files) = fst ` set (split_loop d files (bom_skip d))"
    unfolding find_file_data_def by (subst fold_update_dom [where g = "slice d"]) simp_all
  have "card (fst ` set (split_loop d files (bom_skip d)))
          \<le> card (set (split_loop d files (bom_skip d)))"
    by (rule card_image_le) simp
  also have "\<dots> \<le> length (split_loop d files (bom_skip d))" by (rule card_length)
  finally show "card (dom (find_file_data d files)) \<le> length (split_loop d files (bom_skip d))"
    unfolding dm .
next
  fix i f a b
  assume "i < length (split_loop d files (bom_skip d))
         \<and> split_loop d files (bom_skip d) ! i = (f, a, b)
         \<and> (\<forall>j. i < j \<and> j < length (split_loop d files (bom_skip d))
                \<longrightarrow> fst (split_loop d files (bom_skip d) ! j) \<noteq> f)"
  then show "find_file_data d files f = Some (slice d a b)"
    unfolding find_file_data_def
    by (intro fold_update_last [where i = i and g = "slice d"]) auto
qed

text \<open>
  The payload \<open>[A_TOP]x[A_TOP]y\<close>: two segments of the same filename, one entry in the
  mapping, holding the bytes \<open>[A_TOP]y\<close> of the second.
\<close>

theorem last_segment_wins_witness:
  "length (split_loop [0x5B,0x41,0x5F,0x54,0x4F,0x50,0x5D,0x78,
      0x5B,0x41,0x5F,0x54,0x4F,0x50,0x5D,0x79] [] (bom_skip [0x5B,0x41,0x5F,0x54,0x4F,0x50,0x5D,0x78,
      0x5B,0x41,0x5F,0x54,0x4F,0x50,0x5D,0x79])) = 2
   \<and> dom (find_file_data [0x5B,0x41,0x5F,0x54,0x4F,0x50,0x5D,0x78,
      0x5B,0x41,0x5F,0x54,0x4F,0x50,0x5D,0x79] []) = {ascii ''A_TOP.tat''}
   \<and> find_file_data [0x5B,0x41,0x5F,0x54,0x4F,0x50,0x5D,0x78,
      0x5B,0x41,0x5F,0x54,0x4F,0x50,0x5D,0x79] [] (ascii ''A_TOP.tat'') = Some [0x5B,0x41,0x5F,0x54,0x4F,0x50,0x5D,0x79]"
proof -
  have b: "bom_skip [0x5B,0x41,0x5F,0x54,0x4F,0x50,0x5D,0x78,
      0x5B,0x41,0x5F,0x54,0x4F,0x50,0x5D,0x79] = 0"
    by (simp add: bom_skip_def slice_def)
  note T = last_segment_wins [of "[0x5B,0x41,0x5F,0x54,0x4F,0x50,0x5D,0x78,
      0x5B,0x41,0x5F,0x54,0x4F,0x50,0x5D,0x79]" "[]", unfolded b collide_example]
  from T have d: "dom (find_file_data [0x5B,0x41,0x5F,0x54,0x4F,0x50,0x5D,0x78,
      0x5B,0x41,0x5F,0x54,0x4F,0x50,0x5D,0x79] []) = {ascii ''A_TOP.tat''}" by simp
  from T have "\<forall>i f a b.
         i < length [(ascii ''A_TOP.tat'', 0 :: nat, 8 :: nat), (ascii ''A_TOP.tat'', 8, 16)]
         \<and> [(ascii ''A_TOP.tat'', 0 :: nat, 8 :: nat), (ascii ''A_TOP.tat'', 8, 16)] ! i = (f, a, b)
         \<and> (\<forall>j. i < j \<and> j < length [(ascii ''A_TOP.tat'', 0 :: nat, 8 :: nat), (ascii ''A_TOP.tat'', 8, 16)]
                \<longrightarrow> fst ([(ascii ''A_TOP.tat'', 0 :: nat, 8 :: nat), (ascii ''A_TOP.tat'', 8, 16)] ! j) \<noteq> f)
         \<longrightarrow> find_file_data [0x5B,0x41,0x5F,0x54,0x4F,0x50,0x5D,0x78,
      0x5B,0x41,0x5F,0x54,0x4F,0x50,0x5D,0x79] [] f = Some (slice [0x5B,0x41,0x5F,0x54,0x4F,0x50,0x5D,0x78,
      0x5B,0x41,0x5F,0x54,0x4F,0x50,0x5D,0x79] a b)" by blast
  then have "1 < length [(ascii ''A_TOP.tat'', 0 :: nat, 8 :: nat), (ascii ''A_TOP.tat'', 8, 16)]
         \<and> [(ascii ''A_TOP.tat'', 0 :: nat, 8 :: nat), (ascii ''A_TOP.tat'', 8, 16)] ! 1
             = (ascii ''A_TOP.tat'', 8, 16)
         \<and> (\<forall>j. 1 < j \<and> j < length [(ascii ''A_TOP.tat'', 0 :: nat, 8 :: nat), (ascii ''A_TOP.tat'', 8, 16)]
                \<longrightarrow> fst ([(ascii ''A_TOP.tat'', 0 :: nat, 8 :: nat), (ascii ''A_TOP.tat'', 8, 16)] ! j)
                    \<noteq> ascii ''A_TOP.tat'')
         \<longrightarrow> find_file_data [0x5B,0x41,0x5F,0x54,0x4F,0x50,0x5D,0x78,
      0x5B,0x41,0x5F,0x54,0x4F,0x50,0x5D,0x79] [] (ascii ''A_TOP.tat'') = Some (slice [0x5B,0x41,0x5F,0x54,0x4F,0x50,0x5D,0x78,
      0x5B,0x41,0x5F,0x54,0x4F,0x50,0x5D,0x79] 8 16)" by blast
  then have v: "find_file_data [0x5B,0x41,0x5F,0x54,0x4F,0x50,0x5D,0x78,
      0x5B,0x41,0x5F,0x54,0x4F,0x50,0x5D,0x79] [] (ascii ''A_TOP.tat'') = Some (slice [0x5B,0x41,0x5F,0x54,0x4F,0x50,0x5D,0x78,
      0x5B,0x41,0x5F,0x54,0x4F,0x50,0x5D,0x79] 8 16)" by auto
  have l: "length (split_loop [0x5B,0x41,0x5F,0x54,0x4F,0x50,0x5D,0x78,
      0x5B,0x41,0x5F,0x54,0x4F,0x50,0x5D,0x79] [] (bom_skip [0x5B,0x41,0x5F,0x54,0x4F,0x50,0x5D,0x78,
      0x5B,0x41,0x5F,0x54,0x4F,0x50,0x5D,0x79])) = 2"
    unfolding b collide_example by simp
  from l d v show ?thesis by (simp add: slice_def)
qed

end
